theory Spec2Isabelle
  imports Complex_Main "HOL-Library.Sublist" "HOL-Library.AList"
begin

section \<open>Python strings\<close>

text \<open>
  Text is modelled as \<open>string\<close>, one \<open>char\<close> per character: a \<open>char\<close> is the
  code point of the character, so the texts of the model are those whose code points
  are below 256 (ASCII and Latin-1). On these, the whitespace of \<open>str.strip()\<close> and
  \<open>str.split()\<close> is tab, line feed, vertical tab, form feed, carriage return, the
  four separators \<open>0x1C\<close>..\<open>0x1F\<close>, the space, the next-line character \<open>0x85\<close>
  and the no-break space \<open>0xA0\<close>; and \<open>str.lower()\<close> adds 32 to the capitals
  \<open>A\<close>..\<open>Z\<close> and \<open>0xC0\<close>..\<open>0xDE\<close> (the multiplication sign \<open>0xD7\<close> apart) and
  leaves every other character alone.
\<close>

definition is_space :: "char \<Rightarrow> bool" where
  "is_space c = (c \<in> set [CHR 0x09, CHR 0x0A, CHR 0x0B, CHR 0x0C, CHR 0x0D,
                            CHR 0x1C, CHR 0x1D, CHR 0x1E, CHR 0x1F, CHR '' '',
                            CHR 0x85, CHR 0xA0])"

definition lower_char :: "char \<Rightarrow> char" where
  "lower_char c =
     (let n = (of_char c :: nat)
      in if (65 \<le> n \<and> n \<le> 90) \<or> (192 \<le> n \<and> n \<le> 222 \<and> n \<noteq> 215)
         then char_of (n + 32) else c)"

definition lower :: "string \<Rightarrow> string" where
  "lower s = map lower_char s"

text \<open>
  \<open>s.strip()\<close> and \<open>s.strip(chars)\<close>: characters are removed at both ends;
  \<open>drop_end P\<close> removes the characters that satisfy \<open>P\<close> at the end.
\<close>

definition drop_end :: "('a \<Rightarrow> bool) \<Rightarrow> 'a list \<Rightarrow> 'a list" where
  "drop_end P xs = rev (dropWhile P (rev xs))"

definition strip :: "string \<Rightarrow> string" where
  "strip s = drop_end is_space (dropWhile is_space s)"

definition strip_chars :: "string \<Rightarrow> string \<Rightarrow> string" where
  "strip_chars cs s = drop_end (\<lambda>c. c \<in> set cs) (dropWhile (\<lambda>c. c \<in> set cs) s)"

text \<open>\<open>sub in s\<close>: \<open>sub\<close> occurs in \<open>s\<close> as a contiguous run.\<close>

fun py_in :: "string \<Rightarrow> string \<Rightarrow> bool" where
  "py_in sub [] = (sub = [])"
| "py_in sub (c # cs) = (prefix sub (c # cs) \<or> py_in sub cs)"

text \<open>
  \<open>s.split(sep)\<close> for a non-empty separator: the occurrences of \<open>sep\<close> are found from
  the left and do not overlap; the result always has at least one element. \<open>cur\<close> is the
  piece being read. Every separator of the program is a non-empty literal (Python raises
  ValueError on an empty one).
\<close>

fun split_on :: "string \<Rightarrow> string \<Rightarrow> string \<Rightarrow> string list" where
  "split_on sep cur [] = [cur]"
| "split_on sep cur (c # cs) =
     (if sep \<noteq> [] \<and> prefix sep (c # cs)
      then cur # split_on sep [] (drop (length sep) (c # cs))
      else split_on sep (cur @ [c]) cs)"

definition split_str :: "string \<Rightarrow> string \<Rightarrow> string list" where
  "split_str sep s = split_on sep [] s"

text \<open>\<open>s.split()\<close>: the maximal runs of non-whitespace characters.\<close>

function split_ws :: "string \<Rightarrow> string list" where
  "split_ws s =
     (case dropWhile is_space s of
        [] \<Rightarrow> []
      | c # cs \<Rightarrow> (c # takeWhile (\<lambda>x. \<not> is_space x) cs)
                   # split_ws (dropWhile (\<lambda>x. \<not> is_space x) cs))"
  by pat_completeness auto
termination
proof (relation "measure length")
  show "wf (measure length)" by simp
next
  fix s :: string and c cs
  assume "dropWhile is_space s = c # cs"
  then have "length (c # cs) \<le> length s"
    by (metis length_dropWhile_le)
  moreover have "length (dropWhile (\<lambda>x. \<not> is_space x) cs) \<le> length cs"
    by (rule length_dropWhile_le)
  ultimately show "(dropWhile (\<lambda>x. \<not> is_space x) cs, s) \<in> measure length"
    by simp
qed

section \<open>Errors and values\<close>

text \<open>
  The exceptions of the program are values; a computation that may raise returns
  \<open>error + 'a\<close>, with \<open>Inl\<close> the exception.
\<close>

datatype error =
  AttributeError | IndexError | KeyError | TypeError | OSError | APIError | ImageError
  | RenderError

text \<open>\<open>xs[0]\<close> raises IndexError on an empty list.\<close>

definition index0 :: "'a list \<Rightarrow> error + 'a" where
  "index0 xs = (case xs of [] \<Rightarrow> Inl IndexError | x # _ \<Rightarrow> Inr x)"

text \<open>
  The argument of the parser is whatever the caller passes: a \<open>str\<close>, or a value that
  has no \<open>split\<close> method (\<open>None\<close>), on which the first statement of the parser raises.
\<close>

datatype pyval = PyStr string | PyNone

section \<open>The response parser\<close>

text \<open>
  An annotation is the dictionary \<open>{"label": ..., "confidence": ..., "bbox": ...}\<close>.
  The confidence and the four coordinates are decimal literals of the source, on which
  the parser does no arithmetic: they are modelled as the reals the literals denote.
\<close>

record annotation =
  label :: string
  confidence :: real
  bbox :: "real list"

text \<open>
  \<open>analysis_sections\<close> is a dictionary; Python keeps the insertion order of the keys,
  and assigning to a key that is present keeps its place: an association list with
  \<open>AList.update\<close>.
\<close>

type_synonym sections = "(string \<times> string) list"

text \<open>The dictionary \<open>location_terms\<close>, in the order in which the source writes it.\<close>

definition location_terms :: "(string \<times> real list) list" where
  "location_terms =
     [(''top-center'', [0.3, 0.1, 0.7, 0.4]),
      (''top-left'', [0.1, 0.1, 0.4, 0.4]),
      (''top-right'', [0.6, 0.1, 0.9, 0.4]),
      (''center'', [0.3, 0.3, 0.7, 0.7]),
      (''bottom-left'', [0.1, 0.6, 0.4, 0.9]),
      (''bottom-right'', [0.6, 0.6, 0.9, 0.9]),
      (''bottom-center'', [0.3, 0.6, 0.7, 0.9])]"

text \<open>
  The loop \<open>for term, coords in location_terms.items(): if term in obj_info: bbox = coords;
  break\<close>, started with the default \<open>bbox\<close>.
\<close>

fun find_bbox :: "(string \<times> real list) list \<Rightarrow> string \<Rightarrow> real list \<Rightarrow> real list" where
  "find_bbox [] obj_info box = box"
| "find_bbox ((term, coords) # rest) obj_info box =
     (if py_in term obj_info then coords else find_bbox rest obj_info box)"

text \<open>The body of \<open>if obj.strip():\<close>, up to the dictionary that is appended.\<close>

definition make_annotation :: "string \<Rightarrow> error + annotation" where
  "make_annotation obj =
     (let obj_info = lower (strip obj);
          conf = (if py_in ''high confidence'' obj_info then 0.9 else 0.7);
          box = find_bbox location_terms obj_info [0.3, 0.3, 0.7, 0.7]
      in case index0 (split_str '','' obj_info) of
           Inl e \<Rightarrow> Inl e
         | Inr l0 \<Rightarrow>
             (case index0 (split_str ''('' (strip l0)) of
                Inl e \<Rightarrow> Inl e
              | Inr l1 \<Rightarrow> Inr \<lparr>label = strip l1, confidence = conf, bbox = box\<rparr>))"

text \<open>
  \<open>for obj in objects\<close>: the annotations are appended to the list in place, so an
  exception leaves the list as it is at that moment; the loop returns it with the
  exception, if any.
\<close>

fun objects_loop :: "string list \<Rightarrow> annotation list \<Rightarrow> annotation list \<times> error option" where
  "objects_loop [] anns = (anns, None)"
| "objects_loop (obj # objs) anns =
     (if strip obj \<noteq> []
      then (case make_annotation obj of
              Inl e \<Rightarrow> (anns, Some e)
            | Inr a \<Rightarrow> objects_loop objs (anns @ [a]))
      else objects_loop objs anns)"

definition newline :: char where
  "newline = CHR 0x0A"

text \<open>\<open>for section in sections\<close>, with the \<open>if\<close>/\<open>elif\<close> chain in the order of the source.\<close>

fun sections_loop ::
  "string list \<Rightarrow> annotation list \<times> sections \<Rightarrow> (annotation list \<times> sections) \<times> error option" where
  "sections_loop [] st = (st, None)"
| "sections_loop (sec # rest) (anns, secs) =
     (if py_in ''1. OBJECT IDENTIFICATION'' sec then
        (case objects_loop (drop 1 (split_str [newline, CHR ''-''] sec)) anns of
           (anns', Some e) \<Rightarrow> ((anns', secs), Some e)
         | (anns', None) \<Rightarrow> sections_loop rest (anns', secs))
      else if py_in ''2. DETAILED DESCRIPTION'' sec then
        sections_loop rest (anns, AList.update ''detailed_description'' sec secs)
      else if py_in ''3. ENVIRONMENTAL CONTEXT'' sec \<or> py_in ''3. MEDICAL CONTEXT'' sec
              \<or> py_in ''3. PSYCHOLOGICAL CONTEXT'' sec \<or> py_in ''3. EDUCATIONAL CONTEXT'' sec then
        sections_loop rest (anns, AList.update ''context'' sec secs)
      else if py_in ''4. TECHNICAL ASSESSMENT'' sec then
        sections_loop rest (anns, AList.update ''technical_assessment'' sec secs)
      else if py_in ''5. SAFETY CONSIDERATIONS'' sec \<or> py_in ''5. CLINICAL CONSIDERATIONS'' sec
              \<or> py_in ''5. BEHAVIORAL CONSIDERATIONS'' sec
              \<or> py_in ''5. PEDAGOGICAL CONSIDERATIONS'' sec then
        sections_loop rest (anns, AList.update ''considerations'' sec secs)
      else if py_in ''7. ADDITIONAL OBSERVATIONS'' sec then
        sections_loop rest (anns, AList.update ''additional_observations'' sec secs)
      else sections_loop rest (anns, secs))"

text \<open>
  The \<open>try\<close> block: the state reached, and the exception that ended it, if any.
  \<open>response_text.split\<close> raises AttributeError when \<open>response_text\<close> is not a string.
\<close>

definition parse_body :: "pyval \<Rightarrow> (annotation list \<times> sections) \<times> error option" where
  "parse_body response_text =
     (case response_text of
        PyNone \<Rightarrow> (([], []), Some AttributeError)
      | PyStr s \<Rightarrow> sections_loop (split_str [newline, newline] s) ([], []))"

text \<open>
  \<open>parse_claude_response\<close>: the handler logs the exception and falls through to
  \<open>return annotations, analysis_sections\<close>.
\<close>

definition parse_claude_response :: "pyval \<Rightarrow> error + (annotation list \<times> sections)" where
  "parse_claude_response response_text =
     (case parse_body response_text of
        (st, None) \<Rightarrow> Inr st
      | (st, Some e) \<Rightarrow> Inr st)"

text \<open>
  The items that the parser reads in a response text: in the order of the blocks, the
  fragments after the first bullet marker of every block that contains the
  object-identification header, the blank ones left out (the two \<open>for\<close> loops with their
  two tests, without what is done with an item).
\<close>

definition object_items :: "string \<Rightarrow> string list" where
  "object_items s =
     concat (map (\<lambda>sec. filter (\<lambda>obj. strip obj \<noteq> [])
                          (drop 1 (split_str [newline, CHR ''-''] sec)))
                 (filter (py_in ''1. OBJECT IDENTIFICATION'')
                         (split_str [newline, newline] s)))"

section \<open>The external collaborators\<close>

text \<open>
  The calls that leave the program are fields of an environment: each says what the
  call returns or raises. A file system is the set of the paths of its files. A call
  that raises leaves the file system as it was.
\<close>

type_synonym fs = "string set"

text \<open>
  A block of the model's reply carries a \<open>text\<close> attribute when it is a text block;
  reading \<open>.text\<close> on another block raises AttributeError.
\<close>

datatype content_block = TextBlock string | OtherBlock

definition block_text :: "content_block \<Rightarrow> error + string" where
  "block_text b = (case b of TextBlock t \<Rightarrow> Inr t | OtherBlock \<Rightarrow> Inl AttributeError)"

text \<open>
  The prompts are fixed texts: the classification prompt, and one analysis prompt for
  each key of \<open>PROMPT_TEMPLATES\<close>.
\<close>

datatype prompt = ClassifyPrompt | BasePrompt string

datatype image = Img (img_rgb: bool) (img_marks: "annotation list")

datatype font = TrueTypeFont | DefaultFont

datatype canvas_op =
  SetFont string nat
  | DrawString int int string
  | DrawImage string int int int int
  | ShowPage

record env =
  read_file :: "string \<Rightarrow> error + string"
  b64encode :: "string \<Rightarrow> string"
  create_message :: "nat \<Rightarrow> string \<Rightarrow> prompt \<Rightarrow> error + content_block list"
  open_image :: "string \<Rightarrow> error + image"
  convert_rgb :: "image \<Rightarrow> error + image"
  load_truetype :: "error + font"
  load_default :: "error + font"
  draw_annotation :: "font \<Rightarrow> image \<Rightarrow> annotation \<Rightarrow> error + image"
  save_image :: "image \<Rightarrow> string \<Rightarrow> error + unit"
  stamp_upload :: string
  stamp_annotated :: string
  stamp_report :: string
  stamp_generated :: string
  title_case :: "string \<Rightarrow> string"
  wrap_fill :: "string \<Rightarrow> string list"
  image_reader :: "string \<Rightarrow> error + unit"
  canvas_save :: "string \<Rightarrow> canvas_op list \<Rightarrow> error + unit"
  has_image :: bool
  makedirs :: "error option"
  upload_save :: "string \<Rightarrow> error + unit"
  remove_fails :: "string \<Rightarrow> bool"
  jsonify :: "error option"

section \<open>The domain classifier\<close>

definition DOMAINS :: "string list" where
  "DOMAINS = [''healthcare'', ''psychology'', ''education'', ''undersea'']"

definition valid_domains :: "string list" where
  "valid_domains = [''healthcare'', ''psychology'', ''education'', ''undersea'']"

definition domain_mapping :: "(string \<times> string) list" where
  "domain_mapping =
     [(''medical'', ''healthcare''),
      (''health'', ''healthcare''),
      (''clinical'', ''healthcare''),
      (''psychological'', ''psychology''),
      (''behavioral'', ''psychology''),
      (''educational'', ''education''),
      (''academic'', ''education''),
      (''learning'', ''education''),
      (''underwater'', ''undersea''),
      (''marine'', ''undersea''),
      (''aquatic'', ''undersea'')]"

text \<open>
  The post-processing of the reply, from \<open>response.content[0].text.strip().lower()\<close>
  to \<open>return detected_domain\<close>.
\<close>

definition classify_reply :: "string \<Rightarrow> error + string" where
  "classify_reply text =
     (let detected = lower (strip text)
      in case (if detected \<noteq> [] then index0 (split_ws detected) else Inr ''undersea'') of
           Inl e \<Rightarrow> Inl e
         | Inr d \<Rightarrow>
             (let d' = strip_chars ''.:!?'' d
              in if d' \<notin> set valid_domains
                 then Inr (case map_of domain_mapping d' of
                             None \<Rightarrow> ''undersea''
                           | Some v \<Rightarrow> v)
                 else Inr d'))"

text \<open>The \<open>try\<close> block of \<open>detect_domain\<close>.\<close>

definition detect_domain_body :: "env \<Rightarrow> string \<Rightarrow> error + string" where
  "detect_domain_body env image_path =
     (case read_file env image_path of
        Inl e \<Rightarrow> Inl e
      | Inr image_data \<Rightarrow>
          (case create_message env 50 (b64encode env image_data) ClassifyPrompt of
             Inl e \<Rightarrow> Inl e
           | Inr content \<Rightarrow>
               (case index0 content of
                  Inl e \<Rightarrow> Inl e
                | Inr blk \<Rightarrow>
                    (case block_text blk of
                       Inl e \<Rightarrow> Inl e
                     | Inr text \<Rightarrow> classify_reply text))))"

text \<open>\<open>except Exception\<close>: the error is logged and \<open>'undersea'\<close> is returned.\<close>

definition detect_domain :: "env \<Rightarrow> string \<Rightarrow> error + string" where
  "detect_domain env image_path =
     (case detect_domain_body env image_path of
        Inl e \<Rightarrow> Inr ''undersea''
      | Inr d \<Rightarrow> Inr d)"

section \<open>The analysis requester\<close>



section \<open>The image annotator\<close>

text \<open>
  Drawing one annotation (the pixel rectangle, the four outlines, the label and its
  background) is one call of the environment, which may raise.
\<close>

fun draw_loop :: "env \<Rightarrow> font \<Rightarrow> annotation list \<Rightarrow> image \<Rightarrow> error + image" where
  "draw_loop env fnt [] img = Inr img"
| "draw_loop env fnt (ann # anns) img =
     (case draw_annotation env fnt img ann of
        Inl e \<Rightarrow> Inl e
      | Inr img' \<Rightarrow> draw_loop env fnt anns img')"

text \<open>
  The inner \<open>try\<close>: when the TrueType font cannot be loaded, the default font is, and
  an exception of \<open>load_default\<close> reaches the outer handler.
\<close>

definition load_font :: "env \<Rightarrow> error + font" where
  "load_font env = (case load_truetype env of Inl e \<Rightarrow> load_default env | Inr f \<Rightarrow> Inr f)"

definition annotated_name :: "env \<Rightarrow> string" where
  "annotated_name env = ''temp/annotated_'' @ stamp_annotated env @ ''.jpg''"

text \<open>The \<open>try\<close> block of \<open>annotate_image\<close>.\<close>

definition annotate_body :: "env \<Rightarrow> fs \<Rightarrow> string \<Rightarrow> annotation list \<Rightarrow> (error + string) \<times> fs" where
  "annotate_body env files image_path annotations =
     (case open_image env image_path of
        Inl e \<Rightarrow> (Inl e, files)
      | Inr img0 \<Rightarrow>
          (case (if \<not> img_rgb img0 then convert_rgb env img0 else Inr img0) of
             Inl e \<Rightarrow> (Inl e, files)
           | Inr img \<Rightarrow>
               (case load_font env of
                  Inl e \<Rightarrow> (Inl e, files)
                | Inr fnt \<Rightarrow>
                    (case draw_loop env fnt annotations img of
                       Inl e \<Rightarrow> (Inl e, files)
                     | Inr img' \<Rightarrow>
                         (case save_image env img' (annotated_name env) of
                            Inl e \<Rightarrow> (Inl e, files)
                          | Inr u \<Rightarrow> (Inr (annotated_name env),
                                        insert (annotated_name env) files))))))"

text \<open>\<open>except Exception\<close>: the error is logged and \<open>image_path\<close> is returned.\<close>

definition annotate_image :: "env \<Rightarrow> fs \<Rightarrow> string \<Rightarrow> annotation list \<Rightarrow> (error + string) \<times> fs" where
  "annotate_image env files image_path annotations =
     (case annotate_body env files image_path annotations of
        (Inl e, files') \<Rightarrow> (Inr image_path, files')
      | (Inr p, files') \<Rightarrow> (Inr p, files'))"

section \<open>The report builder\<close>

text \<open>
  The canvas is the list of the drawing operations issued so far; the layout keeps it
  with the vertical cursor \<open>y\<close>. \<open>title_case\<close> is \<open>str.title\<close>, and
  \<open>wrap_fill line\<close> is \<open>textwrap.fill(line, width=70).split('\n')\<close>.
\<close>

type_synonym canvas = "canvas_op list \<times> int"

definition replace_char :: "char \<Rightarrow> char \<Rightarrow> string \<Rightarrow> string" where
  "replace_char a b s = map (\<lambda>c. if c = a then b else c) s"

text \<open>\<open>if y < 100: c.showPage(); y = 750; c.setFont("Helvetica", 10)\<close>\<close>

definition page_break :: "canvas \<Rightarrow> canvas" where
  "page_break cv =
     (case cv of (ops, y) \<Rightarrow>
        if y < 100 then (ops @ [ShowPage, SetFont ''Helvetica'' 10], 750) else (ops, y))"

fun wrapped_loop :: "string list \<Rightarrow> canvas \<Rightarrow> canvas" where
  "wrapped_loop [] cv = cv"
| "wrapped_loop (wrapped_line # rest) cv =
     (case page_break cv of (ops, y) \<Rightarrow>
        wrapped_loop rest
          (ops @ [if prefix ''-'' wrapped_line
                  then DrawString (100 + 20) y wrapped_line
                  else DrawString 100 y wrapped_line],
           y - 15))"

fun lines_loop :: "env \<Rightarrow> string list \<Rightarrow> canvas \<Rightarrow> canvas" where
  "lines_loop env [] cv = cv"
| "lines_loop env (line # rest) cv =
     (if strip line = [] then lines_loop env rest cv
      else lines_loop env rest (wrapped_loop (wrap_fill env (strip line)) cv))"

fun report_sections_loop :: "env \<Rightarrow> sections \<Rightarrow> canvas \<Rightarrow> canvas" where
  "report_sections_loop env [] cv = cv"
| "report_sections_loop env ((section_title, content) # rest) cv =
     (case page_break cv of (ops, y) \<Rightarrow>
        (case lines_loop env (split_str [newline] content)
                (ops @ [SetFont ''Helvetica-Bold'' 12,
                        DrawString 100 y (title_case env (replace_char CHR ''_'' CHR '' '' section_title)),
                        SetFont ''Helvetica'' 10],
                 y - 20) of
           (ops', y') \<Rightarrow> report_sections_loop env rest (ops', y' - 20)))"

text \<open>
  \<open>if os.path.exists(image_path) and os.path.exists(annotated_path)\<close>, with the two
  images drawn when it holds. \<open>and\<close> evaluates its second operand only when the first
  one is true, and \<open>os.path.exists(None)\<close> raises TypeError.
\<close>

definition draw_images :: "env \<Rightarrow> fs \<Rightarrow> string \<Rightarrow> string option \<Rightarrow> canvas \<Rightarrow> error + canvas" where
  "draw_images env files image_path annotated_path cv =
     (case cv of (ops, y) \<Rightarrow>
        if image_path \<in> files then
          (case annotated_path of
             None \<Rightarrow> Inl TypeError
           | Some ap \<Rightarrow>
               if ap \<in> files then
                 (case image_reader env image_path of
                    Inl e \<Rightarrow> Inl e
                  | Inr u \<Rightarrow>
                      (case image_reader env ap of
                         Inl e \<Rightarrow> Inl e
                       | Inr u' \<Rightarrow>
                           Inr (ops @ [DrawImage image_path 100 (y - 160) 220 160,
                                       DrawString 100 (y - 160 - 20) ''Original Image'',
                                       DrawImage ap (100 + 220 + 30) (y - 160) 220 160,
                                       DrawString (100 + 220 + 30) (y - 160 - 20) ''Annotated Image''],
                                y - (160 + 40))))
               else Inr (ops, y))
        else Inr (ops, y))"

definition report_name :: "env \<Rightarrow> string \<Rightarrow> string" where
  "report_name env domain = ''report_'' @ domain @ ''_'' @ stamp_report env @ ''.pdf''"

text \<open>The drawing of the report, up to \<open>c.save()\<close>.\<close>

definition report_ops ::
  "env \<Rightarrow> fs \<Rightarrow> sections \<Rightarrow> string \<Rightarrow> string \<Rightarrow> string option \<Rightarrow> error + canvas_op list" where
  "report_ops env files analysis_sections domain image_path annotated_path =
     (case draw_images env files image_path annotated_path
             ([SetFont ''Helvetica-Bold'' 16,
               DrawString 100 750 (''Domain-Specific Image Analysis Report - '' @ title_case env domain),
               SetFont ''Helvetica'' 10,
               DrawString 100 (750 - 30) (''Generated on: '' @ stamp_generated env)],
              750 - 30 - 40) of
        Inl e \<Rightarrow> Inl e
      | Inr cv \<Rightarrow> Inr (fst (report_sections_loop env analysis_sections cv)))"

text \<open>
  \<open>generate_pdf_report\<close>: \<open>c.save()\<close> writes the file; the handler logs and raises the
  exception again. \<open>annotated_path\<close> is \<open>None\<close> when the caller leaves it out.
\<close>

definition generate_pdf_report ::
  "env \<Rightarrow> fs \<Rightarrow> string \<Rightarrow> sections \<Rightarrow> string \<Rightarrow> string \<Rightarrow> annotation list \<Rightarrow> string option
     \<Rightarrow> (error + string) \<times> fs" where
  "generate_pdf_report env files analysis_results analysis_sections domain image_path
     annotations annotated_path =
     (case report_ops env files analysis_sections domain image_path annotated_path of
        Inl e \<Rightarrow> (Inl e, files)
      | Inr ops \<Rightarrow>
          (case canvas_save env (''reports/'' @ report_name env domain) ops of
             Inl e \<Rightarrow> (Inl e, files)
           | Inr u \<Rightarrow> (Inr (report_name env domain),
                         insert (''reports/'' @ report_name env domain) files)))"

section \<open>The request handler\<close>






section \<open>Sample inputs\<close>

definition sample_response :: string where
  "sample_response =
     ''1. OBJECT IDENTIFICATION'' @ [newline] @
     ''- Shark, high confidence, top-left'' @ [newline] @
     ''- Coral (soft), bottom-right'' @ [newline, newline] @
     ''2. DETAILED DESCRIPTION'' @ [newline] @ ''- large''"

definition foo_bar_response :: string where
  "foo_bar_response =
     ''1. OBJECT IDENTIFICATION'' @ [newline] @ ''- Foo Bar, extra text (parenthetical)''"

definition anchor_response :: string where
  "anchor_response =
     ''1. OBJECT IDENTIFICATION'' @ [newline] @ ''- Anchor, bottom-center''"

definition sample_annotations :: "annotation list" where
  "sample_annotations =
     [\<lparr>label = ''shark'', confidence = 0.9, bbox = [0.1, 0.1, 0.4, 0.4]\<rparr>,
      \<lparr>label = ''coral'', confidence = 0.7, bbox = [0.6, 0.6, 0.9, 0.9]\<rparr>]"

definition sample_sections :: sections where
  "sample_sections =
     [(''detailed_description'', ''2. DETAILED DESCRIPTION'' @ [newline] @ ''- large'')]"

text \<open>
  An environment in which every call succeeds: the classifier is answered \<open>Medical.\<close>
  and the analysis request \<open>sample_response\<close>.
\<close>

definition sample_env :: env where
  "sample_env =
     \<lparr>read_file = (\<lambda>p. Inr ''jpeg''),
      b64encode = (\<lambda>s. s),
      create_message = (\<lambda>n img pr. case pr of
                          ClassifyPrompt \<Rightarrow> Inr [TextBlock ''Medical.'']
                        | BasePrompt d \<Rightarrow> Inr [TextBlock sample_response]),
      open_image = (\<lambda>p. Inr (Img True [])),
      convert_rgb = (\<lambda>i. Inr i),
      load_truetype = Inl OSError,
      load_default = Inr DefaultFont,
      draw_annotation = (\<lambda>f i a. Inr (Img (img_rgb i) (img_marks i @ [a]))),
      save_image = (\<lambda>i p. Inr ()),
      stamp_upload = ''20240101_120000'',
      stamp_annotated = ''20240101_120001'',
      stamp_report = ''20240101_120002'',
      stamp_generated = ''2024-01-01 12:00:02'',
      title_case = (\<lambda>s. s),
      wrap_fill = (\<lambda>s. [s]),
      image_reader = (\<lambda>p. Inr ()),
      canvas_save = (\<lambda>p ops. Inr ()),
      has_image = True,
      makedirs = None,
      upload_save = (\<lambda>p. Inr ()),
      remove_fails = (\<lambda>p. False),
      jsonify = None\<rparr>"

text \<open>The same environment with another answer to every request to the model.\<close>

definition reply_env :: "error + content_block list \<Rightarrow> env" where
  "reply_env r = sample_env\<lparr>create_message := (\<lambda>n img pr. r)\<rparr>"

text \<open>The operations that put an image on the canvas.\<close>

fun is_draw_image :: "canvas_op \<Rightarrow> bool" where
  "is_draw_image (DrawImage path x y w h) = True"
| "is_draw_image (SetFont name sz) = False"
| "is_draw_image (DrawString x y s) = False"
| "is_draw_image ShowPage = False"


section \<open>Properties of the string operations\<close>

lemma drop_end_Nil [simp]: "drop_end P [] = []"
  by (simp add: drop_end_def)

lemma drop_end_eq_Nil [simp]: "drop_end P xs = [] \<longleftrightarrow> (\<forall>x\<in>set xs. P x)"
  by (simp add: drop_end_def)

lemma drop_end_Cons:
  "drop_end P (x # xs) = (if (\<forall>y\<in>set xs. P y) \<and> P x then [] else x # drop_end P xs)"
  by (auto simp: drop_end_def dropWhile_append)

lemma drop_end_append_keep:
  "ys \<noteq> [] \<Longrightarrow> \<not> P (last ys) \<Longrightarrow> drop_end P (xs @ ys) = xs @ drop_end P ys"
  by (induction xs) (auto simp: drop_end_Cons)

lemma drop_end_not_last: "ys \<noteq> [] \<Longrightarrow> \<not> P (last ys) \<Longrightarrow> drop_end P ys = ys"
  by (cases ys rule: rev_cases) (auto simp: drop_end_def)

lemma drop_end_decomp: "\<exists>w. xs = drop_end P xs @ w \<and> (\<forall>c\<in>set w. P c)"
proof -
  have "rev xs = takeWhile P (rev xs) @ dropWhile P (rev xs)" by simp
  then have "xs = rev (dropWhile P (rev xs)) @ rev (takeWhile P (rev xs))"
    by (metis rev_append rev_rev_ident)
  moreover have "\<forall>c\<in>set (rev (takeWhile P (rev xs))). P c"
    by (auto dest: set_takeWhileD)
  ultimately show ?thesis unfolding drop_end_def by blast
qed

lemma set_drop_end: "x \<in> set (drop_end P xs) \<Longrightarrow> x \<in> set xs"
  by (metis drop_end_decomp UnCI set_append)

lemma drop_end_all: "(\<forall>x\<in>set (drop_end P xs). P x) \<longleftrightarrow> (\<forall>x\<in>set xs. P x)"
  by (induction xs) (auto simp: drop_end_Cons)

lemma drop_end_dropWhile: "drop_end P (dropWhile P xs) = dropWhile P (drop_end P xs)"
  by (induction xs) (auto simp: drop_end_Cons drop_end_all dest: set_drop_end)

lemma drop_end_idem [simp]: "drop_end P (drop_end P xs) = drop_end P xs"
  by (induction xs) (auto simp: drop_end_Cons drop_end_all dest: set_drop_end)

lemma py_in_sublist: "py_in sub s \<longleftrightarrow> sublist sub s"
  by (induction s) (auto simp: sublist_Cons_right)

lemma split_on_not_Nil [simp]: "split_on sep cur s \<noteq> []"
  by (induction sep cur s rule: split_on.induct) auto

lemma hd_split_on_char: "hd (split_on [d] cur s) = cur @ takeWhile (\<lambda>c. c \<noteq> d) s"
  by (induction s arbitrary: cur) auto

lemma index0_split_str: "index0 (split_str [d] s) = Inr (takeWhile (\<lambda>c. c \<noteq> d) s)"
  using hd_split_on_char [of d "[]" s] split_on_not_Nil [of "[d]" "[]" s]
  by (auto simp: index0_def split_str_def split: list.splits)

lemma drop_end_takeWhile:
  assumes PQ: "\<And>c. P c \<Longrightarrow> Q c"
  shows "drop_end P (takeWhile Q (drop_end P x)) = drop_end P (takeWhile Q x)"
proof -
  obtain w where x: "drop_end P x @ w = x" and w: "\<forall>c\<in>set w. P c"
    using drop_end_decomp [of x P] by metis
  show ?thesis
  proof (cases "\<forall>c\<in>set (drop_end P x). Q c")
    case True
    with w PQ have "\<forall>c\<in>set (drop_end P x @ w). Q c" by auto
    then have "\<forall>c\<in>set x. Q c" unfolding x .
    then have a: "takeWhile Q x = x" by simp
    from True have b: "takeWhile Q (drop_end P x) = drop_end P x" by simp
    show ?thesis unfolding a b by simp
  next
    case False
    then have "takeWhile Q (drop_end P x @ w) = takeWhile Q (drop_end P x)"
      by (auto simp: takeWhile_append)
    then show ?thesis unfolding x by simp
  qed
qed

lemma dropWhile_takeWhile:
  assumes PQ: "\<And>c. P c \<Longrightarrow> Q c"
  shows "dropWhile P (takeWhile Q (dropWhile P x)) = dropWhile P (takeWhile Q x)"
  by (induction x) (auto simp: PQ)

lemma strip_takeWhile:
  assumes "\<And>c. is_space c \<Longrightarrow> Q c"
  shows "strip (takeWhile Q (strip s)) = strip (takeWhile Q s)"
proof -
  have "strip (takeWhile Q (strip s))
        = dropWhile is_space (drop_end is_space (takeWhile Q (drop_end is_space (dropWhile is_space s))))"
    by (simp add: strip_def drop_end_dropWhile)
  also have "\<dots> = dropWhile is_space (drop_end is_space (takeWhile Q (dropWhile is_space s)))"
    using assms by (simp add: drop_end_takeWhile)
  also have "\<dots> = drop_end is_space (dropWhile is_space (takeWhile Q (dropWhile is_space s)))"
    by (simp add: drop_end_dropWhile)
  also have "\<dots> = drop_end is_space (dropWhile is_space (takeWhile Q s))"
    using assms by (simp add: dropWhile_takeWhile)
  finally show ?thesis by (simp add: strip_def)
qed

lemma sublist_dropWhile:
  assumes "w \<noteq> []" "\<not> P (hd w)"
  shows "sublist w (dropWhile P t) \<longleftrightarrow> sublist w t"
proof
  assume "sublist w (dropWhile P t)"
  then show "sublist w t"
    by (metis sublist_order.order_trans suffix_dropWhile suffix_imp_sublist)
next
  assume "sublist w t"
  then obtain ps ss where t: "t = ps @ w @ ss" by (auto simp: sublist_def)
  from assms have dw: "dropWhile P (w @ ss) = w @ ss" by (cases w) auto
  show "sublist w (dropWhile P t)"
  proof (cases "\<forall>c\<in>set ps. P c")
    case True
    then have "dropWhile P t = w @ ss" using t dw by simp
    then show ?thesis by simp
  next
    case False
    then have "dropWhile P t = dropWhile P ps @ w @ ss" using t by (auto simp: dropWhile_append)
    then show ?thesis by simp
  qed
qed

lemma sublist_drop_end:
  assumes "w \<noteq> []" "\<not> P (last w)"
  shows "sublist w (drop_end P t) \<longleftrightarrow> sublist w t"
proof -
  have "sublist w (drop_end P t) \<longleftrightarrow> sublist (rev w) (dropWhile P (rev t))"
    unfolding drop_end_def by (simp add: sublist_rev_right)
  also have "\<dots> \<longleftrightarrow> sublist (rev w) (rev t)"
    using assms by (intro sublist_dropWhile) (auto simp: hd_rev)
  finally show ?thesis by simp
qed

lemma sublist_strip:
  assumes "w \<noteq> []" "\<not> is_space (hd w)" "\<not> is_space (last w)"
  shows "sublist w (strip t) \<longleftrightarrow> sublist w t"
  using assms by (simp add: strip_def sublist_drop_end sublist_dropWhile)

lemma is_space_code:
  "is_space c \<longleftrightarrow> (of_char c :: nat) \<in> {9, 10, 11, 12, 13, 28, 29, 30, 31, 32, 133, 160}"
proof -
  have eq: "\<And>d. c = d \<longleftrightarrow> (of_char c :: nat) = of_char d" by simp
  have "is_space c \<longleftrightarrow> c = CHR 0x09 \<or> c = CHR 0x0A \<or> c = CHR 0x0B \<or> c = CHR 0x0C \<or> c = CHR 0x0D \<or>
                            c = CHR 0x1C \<or> c = CHR 0x1D \<or> c =  CHR 0x1E \<or> c = CHR 0x1F \<or> c = CHR '' '' \<or>
                            c = CHR 0x85 \<or> c = CHR 0xA0"
    unfolding is_space_def by auto
  also have "\<dots> \<longleftrightarrow> (of_char c :: nat) \<in> {9, 10, 11, 12, 13, 28, 29, 30, 31, 32, 133, 160}"
    unfolding eq [of "CHR 0x09"] eq [of "CHR 0x0A"] eq [of "CHR 0x0B"] eq [of "CHR 0x0C"] eq [of "CHR 0x0D"]
       eq [of "CHR 0x1C"] eq [of "CHR 0x1D"] eq [of "CHR 0x1E"] eq [of "CHR 0x1F"] eq [of "CHR '' ''"]
       eq [of "CHR 0x85"] eq [of "CHR 0xA0"]
    by simp
  finally show ?thesis .
qed

lemma is_space_lower_char [simp]: "is_space (lower_char c) = is_space c"
  by (auto simp: is_space_code lower_char_def Let_def)

lemma lower_strip: "lower (strip s) = strip (lower s)"
proof -
  have comp: "is_space \<circ> lower_char = is_space" by (rule ext) simp
  show ?thesis
    by (simp add: lower_def strip_def drop_end_def dropWhile_map rev_map comp)
qed

lemma make_annotation_eq:
  "make_annotation obj =
     Inr \<lparr>label = strip (takeWhile (\<lambda>c. c \<noteq> CHR ''('')
                          (strip (takeWhile (\<lambda>c. c \<noteq> CHR '','') (lower (strip obj))))),
          confidence = (if py_in ''high confidence'' (lower (strip obj)) then 0.9 else 0.7),
          bbox = find_bbox location_terms (lower (strip obj)) [0.3, 0.3, 0.7, 0.7]\<rparr>"
  by (simp add: make_annotation_def Let_def index0_split_str)

lemma objects_loop_inv:
  assumes "\<And>obj a. make_annotation obj = Inr a \<Longrightarrow> P a"
  shows "(\<forall>a\<in>set anns. P a) \<Longrightarrow> \<forall>a\<in>set (fst (objects_loop objs anns)). P a"
proof (induction objs arbitrary: anns)
  case Nil
  then show ?case by simp
next
  case (Cons obj objs)
  show ?case
  proof (cases "strip obj \<noteq> []")
    case True
    obtain a where a: "make_annotation obj = Inr a" by (simp add: make_annotation_eq)
    with assms have "P a" by blast
    with Cons.prems have "\<forall>x\<in>set (anns @ [a]). P x" by simp
    then have "\<forall>x\<in>set (fst (objects_loop objs (anns @ [a]))). P x" by (rule Cons.IH)
    with True a show ?thesis by simp
  next
    case False
    with Cons show ?thesis by simp
  qed
qed

lemma objects_loop_no_error: "snd (objects_loop objs anns) = None"
proof (induction objs arbitrary: anns)
  case Nil
  then show ?case by simp
next
  case (Cons obj objs)
  obtain a where a: "make_annotation obj = Inr a" by (simp add: make_annotation_eq)
  with Cons show ?case by simp
qed

lemma sections_loop_inv:
  assumes "\<And>obj a. make_annotation obj = Inr a \<Longrightarrow> P a"
  shows "(\<forall>a\<in>set anns. P a) \<Longrightarrow> \<forall>a\<in>set (fst (fst (sections_loop secs (anns, dict)))). P a"
proof (induction secs arbitrary: anns dict)
  case Nil
  then show ?case by simp
next
  case (Cons sec secs)
  let ?objs = "drop 1 (split_str [newline, CHR ''-''] sec)"
  obtain anns' where ol: "objects_loop ?objs anns = (anns', None)"
    using objects_loop_no_error [of ?objs anns] by (cases "objects_loop ?objs anns") auto
  have "\<forall>a\<in>set (fst (objects_loop ?objs anns)). P a"
    using assms Cons.prems by (rule objects_loop_inv)
  with ol have inv': "\<forall>a\<in>set anns'. P a" by simp
  show ?case
    using Cons.IH [OF inv'] Cons.IH [OF Cons.prems] ol by simp
qed

lemma sections_loop_no_error: "snd (sections_loop secs (anns, dict)) = None"
proof (induction secs arbitrary: anns dict)
  case Nil
  then show ?case by simp
next
  case (Cons sec secs)
  let ?objs = "drop 1 (split_str [newline, CHR ''-''] sec)"
  obtain anns' where ol: "objects_loop ?objs anns = (anns', None)"
    using objects_loop_no_error [of ?objs anns] by (cases "objects_loop ?objs anns") auto
  show ?case using Cons.IH ol by simp
qed

lemma parse_annotations_inv:
  assumes "\<And>obj a. make_annotation obj = Inr a \<Longrightarrow> P a"
    and "parse_claude_response v = Inr (anns, dict)" and "a \<in> set anns"
  shows "P a"
proof -
  have inv: "\<forall>a\<in>set (fst (fst (parse_body v))). P a"
  proof (cases v)
    case (PyStr s)
    have "\<forall>a\<in>set (fst (fst (sections_loop (split_str [newline, newline] s) ([], [])))). P a"
      using sections_loop_inv [of P "[]", OF assms(1)] by simp
    with PyStr show ?thesis by (simp add: parse_body_def)
  next
    case PyNone
    then show ?thesis by (simp add: parse_body_def)
  qed
  have "parse_claude_response v = Inr (fst (parse_body v))"
    by (auto simp: parse_claude_response_def split: prod.splits option.splits)
  with assms(2) have "fst (parse_body v) = (anns, dict)" by simp
  with inv assms(3) show ?thesis by simp
qed

lemma sample_parse:
  "parse_claude_response (PyStr sample_response) = Inr (sample_annotations, sample_sections)"
  by code_simp

lemma high_confidence_strip:
  "py_in ''high confidence'' (lower (strip obj)) = py_in ''high confidence'' (lower obj)"
proof -
  have "sublist ''high confidence'' (strip (lower obj)) = sublist ''high confidence'' (lower obj)"
    by (rule sublist_strip) (simp_all add: is_space_def)
  then show ?thesis by (simp add: py_in_sublist lower_strip)
qed

text \<open>
  C4: for every item the confidence is 0.9 when the lowercased text of the item contains
  \<open>high confidence\<close> and 0.7 otherwise, and every annotation that the parser returns
  has one of these two confidences.
\<close>

theorem confidence_high_or_default:
  "(\<exists>ann. make_annotation obj = Inr ann \<and>
      confidence ann = (if py_in ''high confidence'' (lower obj) then 0.9 else 0.7)) \<and>
   (parse_claude_response v = Inr (anns, dict) \<longrightarrow> a \<in> set anns \<longrightarrow>
      confidence a = 0.9 \<or> confidence a = 0.7)"
proof (intro conjI impI)
  show "\<exists>ann. make_annotation obj = Inr ann \<and>
      confidence ann = (if py_in ''high confidence'' (lower obj) then 0.9 else 0.7)"
    by (simp add: make_annotation_eq high_confidence_strip)
next
  assume p: "parse_claude_response v = Inr (anns, dict)" and a: "a \<in> set anns"
  have "\<And>obj x. make_annotation obj = Inr x \<Longrightarrow> confidence x = 0.9 \<or> confidence x = 0.7"
    by (auto simp: make_annotation_eq)
  from this p a show "confidence a = 0.9 \<or> confidence a = 0.7"
    by (rule parse_annotations_inv)
qed

theorem confidence_high_or_default_witness:
  "parse_claude_response (PyStr sample_response) = Inr (sample_annotations, sample_sections) \<and>
   hd sample_annotations \<in> set sample_annotations \<and>
   (confidence (hd sample_annotations) = 0.9 \<or> confidence (hd sample_annotations) = 0.7) \<and>
   (\<exists>ann. make_annotation ''Wreck (High Confidence)'' = Inr ann \<and> confidence ann = 0.9)"
proof -
  have m: "hd sample_annotations \<in> set sample_annotations"
    by (simp add: sample_annotations_def)
  have h: "py_in ''high confidence'' (lower ''Wreck (High Confidence)'')"
    by code_simp
  show ?thesis
    using confidence_high_or_default [of "''Wreck (High Confidence)''" "PyStr sample_response"
        sample_annotations sample_sections "hd sample_annotations"] sample_parse m h
    by simp
qed

lemma objects_loop_items:
  "\<exists>new. objects_loop objs anns = (anns @ new, None) \<and>
         map Inr new = map make_annotation (filter (\<lambda>obj. strip obj \<noteq> []) objs)"
proof (induction objs arbitrary: anns)
  case Nil
  then show ?case by simp
next
  case (Cons obj objs)
  show ?case
  proof (cases "strip obj \<noteq> []")
    case True
    obtain a where a: "make_annotation obj = Inr a" by (simp add: make_annotation_eq)
    from Cons.IH [of "anns @ [a]"] obtain new where
      ol: "objects_loop objs (anns @ [a]) = ((anns @ [a]) @ new, None)"
      and mp: "map Inr new = map make_annotation (filter (\<lambda>obj. strip obj \<noteq> []) objs)"
      by blast
    have "objects_loop (obj # objs) anns = (anns @ (a # new), None)"
      using True a ol by simp
    moreover have "map Inr (a # new)
                   = map make_annotation (filter (\<lambda>obj. strip obj \<noteq> []) (obj # objs))"
      using True a mp by simp
    ultimately show ?thesis by blast
  next
    case False
    with Cons.IH [of anns] show ?thesis by simp
  qed
qed

lemma sections_loop_items:
  "\<exists>new. fst (fst (sections_loop secs (anns, dict))) = anns @ new \<and>
         map Inr new
         = map make_annotation
             (concat (map (\<lambda>sec. filter (\<lambda>obj. strip obj \<noteq> [])
                                    (drop 1 (split_str [newline, CHR ''-''] sec)))
                          (filter (py_in ''1. OBJECT IDENTIFICATION'') secs)))"
proof (induction secs arbitrary: anns dict)
  case Nil
  then show ?case by simp
next
  case (Cons sec secs)
  show ?case
  proof (cases "py_in ''1. OBJECT IDENTIFICATION'' sec")
    case True
    let ?objs = "drop 1 (split_str [newline, CHR ''-''] sec)"
    from objects_loop_items [of ?objs anns] obtain new1 where
      ol: "objects_loop ?objs anns = (anns @ new1, None)"
      and m1: "map Inr new1 = map make_annotation (filter (\<lambda>obj. strip obj \<noteq> []) ?objs)"
      by blast
    from Cons.IH [of "anns @ new1" dict] obtain new2 where
      sl: "fst (fst (sections_loop secs (anns @ new1, dict))) = (anns @ new1) @ new2"
      and m2: "map Inr new2
         = map make_annotation
             (concat (map (\<lambda>sec. filter (\<lambda>obj. strip obj \<noteq> [])
                                    (drop 1 (split_str [newline, CHR ''-''] sec)))
                          (filter (py_in ''1. OBJECT IDENTIFICATION'') secs)))"
      by blast
    have "fst (fst (sections_loop (sec # secs) (anns, dict))) = anns @ (new1 @ new2)"
      using True ol sl by simp
    moreover have "map Inr (new1 @ new2)
         = map make_annotation
             (concat (map (\<lambda>sec. filter (\<lambda>obj. strip obj \<noteq> [])
                                    (drop 1 (split_str [newline, CHR ''-''] sec)))
                          (filter (py_in ''1. OBJECT IDENTIFICATION'') (sec # secs))))"
      using True m1 m2 by simp
    ultimately show ?thesis by blast
  next
    case False
    from Cons.IH obtain f where
      f: "\<And>a d. fst (fst (sections_loop secs (a, d))) = a @ f a d \<and>
         map Inr (f a d)
         = map make_annotation
             (concat (map (\<lambda>sec. filter (\<lambda>obj. strip obj \<noteq> [])
                                    (drop 1 (split_str [newline, CHR ''-''] sec)))
                          (filter (py_in ''1. OBJECT IDENTIFICATION'') secs)))"
      by metis
    with False show ?thesis by simp
  qed
qed

lemma parse_annotations_items:
  assumes "parse_claude_response (PyStr s) = Inr (anns, dict)"
  shows "map Inr anns = map make_annotation (object_items s)"
proof -
  have "parse_claude_response (PyStr s) = Inr (fst (parse_body (PyStr s)))"
    by (auto simp: parse_claude_response_def split: prod.splits option.splits)
  with assms have "anns = fst (fst (parse_body (PyStr s)))" by simp
  then have "anns = fst (fst (sections_loop (split_str [newline, newline] s) ([], [])))"
    by (simp add: parse_body_def)
  with sections_loop_items [of "split_str [newline, newline] s" "[]" "[]"]
  show ?thesis by (auto simp: object_items_def)
qed

lemma label_normal_form:
  "strip (takeWhile (\<lambda>c. c \<noteq> CHR ''('') (strip (takeWhile (\<lambda>c. c \<noteq> CHR '','') (lower (strip obj)))))
   = strip (takeWhile (\<lambda>c. c \<noteq> CHR ''('') (takeWhile (\<lambda>c. c \<noteq> CHR '','') (lower obj)))"
proof -
  have comma: "\<And>c. is_space c \<Longrightarrow> c \<noteq> CHR '',''" by (auto simp: is_space_def)
  have paren: "\<And>c. is_space c \<Longrightarrow> c \<noteq> CHR ''(''" by (auto simp: is_space_def)
  have "strip (takeWhile (\<lambda>c. c \<noteq> CHR '','') (lower (strip obj)))
        = strip (takeWhile (\<lambda>c. c \<noteq> CHR '','') (lower obj))"
    using comma by (simp add: lower_strip strip_takeWhile)
  then have "strip (takeWhile (\<lambda>c. c \<noteq> CHR ''('') (strip (takeWhile (\<lambda>c. c \<noteq> CHR '','') (lower (strip obj)))))
        = strip (takeWhile (\<lambda>c. c \<noteq> CHR ''('') (strip (takeWhile (\<lambda>c. c \<noteq> CHR '','') (lower obj))))"
    by simp
  also have "\<dots> = strip (takeWhile (\<lambda>c. c \<noteq> CHR ''('') (takeWhile (\<lambda>c. c \<noteq> CHR '','') (lower obj)))"
    using paren by (rule strip_takeWhile)
  finally show ?thesis .
qed

lemma items_pointwise:
  assumes "map Inr anns = map make_annotation items"
    and "\<And>obj a. make_annotation obj = Inr a \<Longrightarrow> g a = h obj"
  shows "map g anns = map h items"
  using assms(1)
proof (induction anns arbitrary: items)
  case Nil
  then show ?case by simp
next
  case (Cons a anns)
  then obtain obj rest where items: "items = obj # rest"
    and a: "make_annotation obj = Inr a"
    and rest: "map Inr anns = map make_annotation rest"
    by (cases items) auto
  from a have "g a = h obj" by (rule assms(2))
  with Cons.IH [OF rest] items show ?case by simp
qed

lemma foo_bar_parse:
  "parse_claude_response (PyStr foo_bar_response)
   = Inr ([\<lparr>label = ''foo bar'', confidence = 0.7, bbox = [0.3, 0.3, 0.7, 0.7]\<rparr>], [])"
  by code_simp

lemma sample_items:
  "object_items sample_response
   = ['' Shark, high confidence, top-left'', '' Coral (soft), bottom-right'']"
  by code_simp

text \<open>
  C5: the labels of the annotations that the parser returns are, item by item, the text
  of the item lowercased, cut at the first comma, then cut at the first open
  parenthesis, and stripped of the whitespace around it; the response whose only item
  is \<open>Foo Bar, extra text (parenthetical)\<close> parses to the single label \<open>foo bar\<close>.
\<close>

theorem label_truncated_and_trimmed:
  "(parse_claude_response (PyStr s) = Inr (anns, dict) \<longrightarrow>
      map label anns
      = map (\<lambda>obj. strip (takeWhile (\<lambda>c. c \<noteq> CHR ''('')
                             (takeWhile (\<lambda>c. c \<noteq> CHR '','') (lower obj))))
            (object_items s)) \<and>
   (\<exists>ann. make_annotation obj = Inr ann \<and>
      label ann = strip (takeWhile (\<lambda>c. c \<noteq> CHR ''('')
                          (takeWhile (\<lambda>c. c \<noteq> CHR '','') (lower obj)))) \<and>
   parse_claude_response (PyStr foo_bar_response)
     = Inr ([\<lparr>label = ''foo bar'', confidence = 0.7, bbox = [0.3, 0.3, 0.7, 0.7]\<rparr>], [])"
proof (intro conjI impI)
  assume "parse_claude_response (PyStr s) = Inr (anns, dict)"
  then have "map Inr anns = map make_annotation (object_items s)"
    by (rule parse_annotations_items)
  then show "map label anns
      = map (\<lambda>obj. strip (takeWhile (\<lambda>c. c \<noteq> CHR ''('')
                             (takeWhile (\<lambda>c. c \<noteq> CHR '','') (lower obj))))
            (object_items s)"
    by (rule items_pointwise) (auto simp: make_annotation_eq label_normal_form)
next
  show "\<exists>ann. make_annotation obj = Inr ann \<and>
      label ann = strip (takeWhile (\<lambda>c. c \<noteq> CHR ''('')
                          (takeWhile (\<lambda>c. c \<noteq> CHR '','') (lower obj)))"
    by (simp add: make_annotation_eq label_normal_form)
next
  show "parse_claude_response (PyStr foo_bar_response)
     = Inr ([\<lparr>label = ''foo bar'', confidence = 0.7, bbox = [0.3, 0.3, 0.7, 0.7]\<rparr>], [])"
    by (rule foo_bar_parse)
qed

theorem label_truncated_and_trimmed_witness:
  "parse_claude_response (PyStr sample_response) = Inr (sample_annotations, sample_sections) \<and>
   object_items sample_response
     = ['' Shark, high confidence, top-left'', '' Coral (soft), bottom-right''] \<and>
   map label sample_annotations = [''shark'', ''coral''] \<and>
   map (\<lambda>obj. strip (takeWhile (\<lambda>c. c \<noteq> CHR ''('')
                        (takeWhile (\<lambda>c. c \<noteq> CHR '','') (lower obj))))
       ['' Shark, high confidence, top-left'', '' Coral (soft), bottom-right'']
     = map label sample_annotations"
proof -
  have l: "map label sample_annotations = [''shark'', ''coral'']"
    by (simp add: sample_annotations_def)
  show ?thesis
    using label_truncated_and_trimmed [of sample_response sample_annotations sample_sections]
      sample_parse sample_items l
    by simp
qed

lemma find_bbox_range: "find_bbox tbl info d \<in> insert d (snd ` set tbl)"
  by (induction tbl info d rule: find_bbox.induct) auto

lemma location_terms_rectangles:
  "snd ` set location_terms =
     {[0.3, 0.1, 0.7, 0.4], [0.1, 0.1, 0.4, 0.4], [0.6, 0.1, 0.9, 0.4], [0.3, 0.3, 0.7, 0.7],
      [0.1, 0.6, 0.4, 0.9], [0.6, 0.6, 0.9, 0.9], [0.3, 0.6, 0.7, 0.9 :: real]}"
  by (simp add: location_terms_def)

lemma card_rectangles: "card (snd ` set location_terms) = 7"
  unfolding location_terms_rectangles by simp

text \<open>
  C1, as stated, fails: the rectangles that the parser writes down, the default one
  included, are seven, not nine.
\<close>

theorem hardcoded_rectangles_not_nine:
  "card (insert [0.3, 0.3, 0.7, 0.7] (snd ` set location_terms)) = 7 \<and>
   card (insert [0.3, 0.3, 0.7, 0.7] (snd ` set location_terms)) \<noteq> 9"
proof -
  have "[0.3, 0.3, 0.7, 0.7] \<in> snd ` set location_terms"
    unfolding location_terms_rectangles by simp
  then have "insert [0.3, 0.3, 0.7, 0.7] (snd ` set location_terms) = snd ` set location_terms"
    by (rule insert_absorb)
  then show ?thesis by (simp add: card_rectangles)
qed

text \<open>
  C1, amended: every annotation that the parser returns has its bbox among the seven
  rectangles of \<open>location_terms\<close>, one of which, the center rectangle, is also the
  default.
\<close>

theorem bbox_in_location_terms:
  "(parse_claude_response v = Inr (anns, dict) \<longrightarrow> a \<in> set anns \<longrightarrow>
      bbox a \<in> snd ` set location_terms) \<and>
   card (snd ` set location_terms) = 7 \<and>
   [0.3, 0.3, 0.7, 0.7] \<in> snd ` set location_terms"
proof (intro conjI impI)
  assume p: "parse_claude_response v = Inr (anns, dict)" and a: "a \<in> set anns"
  have dflt: "[0.3, 0.3, 0.7, 0.7] \<in> snd ` set location_terms"
    unfolding location_terms_rectangles by simp
  have "\<And>obj x. make_annotation obj = Inr x \<Longrightarrow> bbox x \<in> snd ` set location_terms"
  proof -
    fix obj x
    assume "make_annotation obj = Inr x"
    then have "bbox x = find_bbox location_terms (lower (strip obj)) [0.3, 0.3, 0.7, 0.7]"
      by (auto simp: make_annotation_eq)
    with find_bbox_range [of location_terms "lower (strip obj)" "[0.3, 0.3, 0.7, 0.7]"] dflt
    show "bbox x \<in> snd ` set location_terms" by (metis insertE)
  qed
  from this p a show "bbox a \<in> snd ` set location_terms"
    by (rule parse_annotations_inv)
next
  show "card (snd ` set location_terms) = 7" by (rule card_rectangles)
next
  show "[0.3, 0.3, 0.7, 0.7] \<in> snd ` set location_terms"
    unfolding location_terms_rectangles by simp
qed

theorem bbox_in_location_terms_witness:
  "parse_claude_response (PyStr sample_response) = Inr (sample_annotations, sample_sections) \<and>
   last sample_annotations \<in> set sample_annotations \<and>
   bbox (last sample_annotations) \<in> snd ` set location_terms"
proof -
  have m: "last sample_annotations \<in> set sample_annotations"
    by (simp add: sample_annotations_def)
  show ?thesis
    using bbox_in_location_terms [of "PyStr sample_response" sample_annotations sample_sections
        "last sample_annotations"] sample_parse m
    by simp
qed

lemma bottom_center_contains_center:
  assumes "py_in ''bottom-center'' info"
  shows "py_in ''center'' info"
proof -
  have "''bottom-center'' = ''bottom-'' @ ''center'' @ []" by simp
  then have "sublist ''center'' ''bottom-center''" unfolding sublist_def by blast
  moreover from assms have "sublist ''bottom-center'' info" by (simp add: py_in_sublist)
  ultimately have "sublist ''center'' info" by (rule sublist_order.order_trans)
  then show ?thesis by (simp add: py_in_sublist)
qed

lemma make_annotation_not_bottom_center:
  assumes "make_annotation obj = Inr a"
  shows "bbox a \<noteq> [0.3, 0.6, 0.7, 0.9]"
proof -
  from assms have bb: "bbox a = find_bbox location_terms (lower (strip obj)) [0.3, 0.3, 0.7, 0.7]"
    by (auto simp: make_annotation_eq)
  show ?thesis
  proof (cases "py_in ''center'' (lower (strip obj))")
    case True
    then show ?thesis unfolding bb by (simp add: location_terms_def)
  next
    case False
    with bottom_center_contains_center [of "lower (strip obj)"]
    have "\<not> py_in ''bottom-center'' (lower (strip obj))" by blast
    with False show ?thesis unfolding bb by (simp add: location_terms_def)
  qed
qed

lemma anchor_parse:
  "parse_claude_response (PyStr anchor_response)
   = Inr ([\<lparr>label = ''anchor'', confidence = 0.7, bbox = [0.3, 0.3, 0.7, 0.7]\<rparr>], [])"
  by code_simp

lemma anchor_items: "object_items anchor_response = ['' Anchor, bottom-center'']"
  by code_simp

lemma anchor_phrase: "py_in ''bottom-center'' (lower (strip '' Anchor, bottom-center''))"
  by code_simp

text \<open>
  C2: the code does not do what the claim says for the phrase \<open>bottom-center\<close>. The
  table maps \<open>bottom-center\<close> to the rectangle \<open>[0.3, 0.6, 0.7, 0.9]\<close>, but \<open>center\<close>
  is checked before it and occurs in every text in which \<open>bottom-center\<close> occurs, so
  the entry is never reached: no annotation that the parser returns has this rectangle,
  and the response whose only item is \<open>Anchor, bottom-center\<close> parses to an annotation
  with the center rectangle.
\<close>

theorem bottom_center_never_selected:
  "\<not> (\<exists>v anns dict a. parse_claude_response v = Inr (anns, dict) \<and> a \<in> set anns \<and>
        bbox a = [0.3, 0.6, 0.7, 0.9]) \<and>
   map_of location_terms ''bottom-center'' = Some [0.3, 0.6, 0.7, 0.9] \<and>
   object_items anchor_response = ['' Anchor, bottom-center''] \<and>
   py_in ''bottom-center'' (lower (strip '' Anchor, bottom-center'')) \<and>
   parse_claude_response (PyStr anchor_response)
     = Inr ([\<lparr>label = ''anchor'', confidence = 0.7, bbox = [0.3, 0.3, 0.7, 0.7]\<rparr>], [])"
proof (intro conjI)
  show "\<not> (\<exists>v anns dict a. parse_claude_response v = Inr (anns, dict) \<and> a \<in> set anns \<and>
        bbox a = [0.3, 0.6, 0.7, 0.9])"
  proof
    assume "\<exists>v anns dict a. parse_claude_response v = Inr (anns, dict) \<and> a \<in> set anns \<and>
        bbox a = [0.3, 0.6, 0.7, 0.9]"
    then obtain v anns dict a where p: "parse_claude_response v = Inr (anns, dict)"
      and a: "a \<in> set anns" and b: "bbox a = [0.3, 0.6, 0.7, 0.9]"
      by blast
    have "\<And>obj x. make_annotation obj = Inr x \<Longrightarrow> bbox x \<noteq> [0.3, 0.6, 0.7, 0.9]"
      by (rule make_annotation_not_bottom_center)
    from this p a have "bbox a \<noteq> [0.3, 0.6, 0.7, 0.9]" by (rule parse_annotations_inv)
    with b show False by simp
  qed
next
  show "map_of location_terms ''bottom-center'' = Some [0.3, 0.6, 0.7, 0.9]"
    by (simp add: location_terms_def)
next
  show "object_items anchor_response = ['' Anchor, bottom-center'']" by (rule anchor_items)
next
  show "py_in ''bottom-center'' (lower (strip '' Anchor, bottom-center''))" by (rule anchor_phrase)
next
  show "parse_claude_response (PyStr anchor_response)
     = Inr ([\<lparr>label = ''anchor'', confidence = 0.7, bbox = [0.3, 0.3, 0.7, 0.7]\<rparr>], [])"
    by (rule anchor_parse)
qed

text \<open>
  C7: whatever its argument, the parser returns, and what it returns is the pair of the
  annotations and sections that the \<open>try\<close> block had built when it ended, normally or
  by an exception; on a string no statement of the block raises, and on a value that is
  not a string the exception of the first statement leaves the two empty collections.
\<close>

theorem parse_never_raises:
  "(\<exists>anns dict. parse_claude_response v = Inr (anns, dict) \<and> (anns, dict) = fst (parse_body v)) \<and>
   snd (parse_body (PyStr s)) = None \<and>
   parse_body PyNone = (([], []), Some AttributeError) \<and>
   parse_claude_response PyNone = Inr ([], [])"
proof (intro conjI)
  show "\<exists>anns dict. parse_claude_response v = Inr (anns, dict) \<and> (anns, dict) = fst (parse_body v)"
    by (cases "parse_body v") (auto simp: parse_claude_response_def split: option.splits)
next
  show "snd (parse_body (PyStr s)) = None"
    by (simp add: parse_body_def sections_loop_no_error)
next
  show "parse_body PyNone = (([], []), Some AttributeError)"
    by (simp add: parse_body_def)
next
  show "parse_claude_response PyNone = Inr ([], [])"
    by (simp add: parse_claude_response_def parse_body_def)
qed

theorem parse_never_raises_witness:
  "parse_claude_response (PyStr sample_response) = Inr (sample_annotations, sample_sections) \<and>
   fst (parse_body (PyStr sample_response)) = (sample_annotations, sample_sections) \<and>
   snd (parse_body (PyStr sample_response)) = None"
  using parse_never_raises [of "PyStr sample_response" sample_response] sample_parse
  by auto

lemma split_ws_head:
  assumes "d \<noteq> []" "\<not> is_space (hd d)"
  shows "index0 (split_ws d) = Inr (takeWhile (\<lambda>x. \<not> is_space x) d)"
proof -
  from assms obtain c cs where d: "d = c # cs" and c: "\<not> is_space c" by (cases d) auto
  then have "dropWhile is_space d = c # cs" by simp
  then have "split_ws d = (c # takeWhile (\<lambda>x. \<not> is_space x) cs)
                           # split_ws (dropWhile (\<lambda>x. \<not> is_space x) cs)"
    by (subst split_ws.simps) simp
  with d c show ?thesis by (simp add: index0_def)
qed

lemma hd_drop_end: "drop_end P u \<noteq> [] \<Longrightarrow> hd (drop_end P u) = hd u"
  by (metis drop_end_decomp hd_append2)

lemma strip_hd_not_space: "strip t \<noteq> [] \<Longrightarrow> \<not> is_space (hd (strip t))"
proof -
  assume ne: "strip t \<noteq> []"
  then have "hd (strip t) = hd (dropWhile is_space t)"
    unfolding strip_def by (rule hd_drop_end)
  moreover from ne have "dropWhile is_space t \<noteq> []"
    unfolding strip_def by (metis drop_end_Nil)
  ultimately show ?thesis by (simp add: hd_dropWhile)
qed

lemma takeWhile_drop_end:
  assumes PQ: "\<And>c. P c \<Longrightarrow> \<not> Q c"
  shows "takeWhile Q (drop_end P u) = takeWhile Q u"
proof -
  obtain w where u: "drop_end P u @ w = u" and w: "\<forall>c\<in>set w. P c"
    using drop_end_decomp [of u P] by metis
  have tw: "takeWhile Q w = []" using w PQ by (cases w) auto
  have "takeWhile Q (drop_end P u @ w) = takeWhile Q (drop_end P u)"
  proof (cases "\<forall>c\<in>set (drop_end P u). Q c")
    case True
    then have "takeWhile Q (drop_end P u) = drop_end P u" by simp
    moreover from True have "takeWhile Q (drop_end P u @ w) = drop_end P u @ takeWhile Q w"
      by simp
    ultimately show ?thesis by (simp only: tw append_Nil2)
  next
    case False
    then show ?thesis by (auto simp: takeWhile_append)
  qed
  then show ?thesis unfolding u by simp
qed

lemma first_token_strip:
  "takeWhile (\<lambda>x. \<not> is_space x) (strip t) = takeWhile (\<lambda>x. \<not> is_space x) (dropWhile is_space t)"
  unfolding strip_def by (rule takeWhile_drop_end) simp

lemma first_token_lower:
  "takeWhile (\<lambda>x. \<not> is_space x) (lower t) = lower (takeWhile (\<lambda>x. \<not> is_space x) t)"
proof -
  have "(\<lambda>x. \<not> is_space x) \<circ> lower_char = (\<lambda>x. \<not> is_space x)" by (rule ext) simp
  then show ?thesis by (simp add: lower_def takeWhile_map)
qed

lemma strip_empty_iff: "strip t = [] \<longleftrightarrow> dropWhile is_space t = []"
proof
  assume "strip t = []"
  then have all: "\<forall>c\<in>set (dropWhile is_space t). is_space c" by (simp add: strip_def)
  show "dropWhile is_space t = []"
  proof (rule ccontr)
    assume ne: "dropWhile is_space t \<noteq> []"
    then have "\<not> is_space (hd (dropWhile is_space t))" by (simp add: hd_dropWhile)
    with all ne show False by (metis hd_in_set)
  qed
next
  assume "dropWhile is_space t = []"
  then show "strip t = []" unfolding strip_def by (simp only: drop_end_Nil)
qed

lemma strip_chars_undersea: "strip_chars ''.:!?'' ''undersea'' = ''undersea''"
  by code_simp

lemma empty_token_unknown:
  "strip_chars ''.:!?'' [] \<notin> set valid_domains"
  "map_of domain_mapping (strip_chars ''.:!?'' []) = None"
  by (simp_all add: strip_chars_def valid_domains_def domain_mapping_def)

lemma classify_reply_eq:
  "classify_reply text =
     Inr (let tok = strip_chars ''.:!?''
                      (lower (takeWhile (\<lambda>x. \<not> is_space x) (dropWhile is_space text)))
          in if tok \<in> set valid_domains then tok
             else (case map_of domain_mapping tok of None \<Rightarrow> ''undersea'' | Some v \<Rightarrow> v))"
proof (cases "strip text = []")
  case True
  then have dw: "dropWhile is_space text = []" by (simp add: strip_empty_iff)
  have cr: "classify_reply text = Inr ''undersea''"
    using True by (simp add: classify_reply_def lower_def strip_chars_undersea valid_domains_def)
  show ?thesis unfolding cr dw by (simp add: empty_token_unknown lower_def)
next
  case False
  then have ne: "lower (strip text) \<noteq> []" by (simp add: lower_def)
  from False have "\<not> is_space (hd (strip text))" by (rule strip_hd_not_space)
  with False have "\<not> is_space (hd (lower (strip text)))" by (simp add: lower_def hd_map)
  with ne have "index0 (split_ws (lower (strip text)))
                = Inr (takeWhile (\<lambda>x. \<not> is_space x) (lower (strip text)))"
    by (rule split_ws_head)
  also have "takeWhile (\<lambda>x. \<not> is_space x) (lower (strip text))
             = lower (takeWhile (\<lambda>x. \<not> is_space x) (dropWhile is_space text))"
    by (simp add: first_token_lower first_token_strip)
  finally show ?thesis using ne by (simp add: classify_reply_def Let_def)
qed

lemma mapping_targets: "map_of domain_mapping tok = Some v \<Longrightarrow> v \<in> set DOMAINS"
proof -
  assume "map_of domain_mapping tok = Some v"
  then have "(tok, v) \<in> set domain_mapping" by (rule map_of_SomeD)
  then show ?thesis by (auto simp: domain_mapping_def DOMAINS_def)
qed

lemma classify_reply_domain: "\<exists>d. classify_reply text = Inr d \<and> d \<in> set DOMAINS"
proof -
  have u: "''undersea'' \<in> set DOMAINS" by (simp add: DOMAINS_def)
  have v: "set valid_domains = set DOMAINS" by (simp add: DOMAINS_def valid_domains_def)
  show ?thesis
    unfolding classify_reply_eq Let_def
    using u v by (auto split: option.splits dest: mapping_targets)
qed

text \<open>
  C3: the code does not do what the claim says for a label followed by a punctuation
  mark other than \<open>.\<close>, \<open>:\<close>, \<open>!\<close> and \<open>?\<close>. The source strips the token with
  \<open>strip('.:!?')\<close> under the comment \<open>Remove any punctuation\<close>: the reply
  \<open>Healthcare.\<close> is classified \<open>healthcare\<close>, but the reply \<open>healthcare,\<close> keeps its
  comma, is not recognised and is classified \<open>undersea\<close>.
\<close>

theorem trailing_comma_not_stripped:
  "classify_reply ''healthcare,'' = Inr ''undersea'' \<and>
   detect_domain (reply_env (Inr [TextBlock ''healthcare,''])) ''temp/temp_1.jpg'' = Inr ''undersea'' \<and>
   detect_domain (reply_env (Inr [TextBlock ''Healthcare.''])) ''temp/temp_1.jpg'' = Inr ''healthcare''"
  by code_simp

text \<open>
  C6: the classifier always returns one of the four domains, and whenever a statement of
  its \<open>try\<close> block raises (reading the file, the request to the model, the access to
  the reply, its post-processing) it returns \<open>undersea\<close>.
\<close>

theorem detect_domain_never_raises:
  "(\<exists>d. detect_domain env p = Inr d \<and> d \<in> set DOMAINS) \<and>
   (detect_domain_body env p = Inl e \<longrightarrow> detect_domain env p = Inr ''undersea'')"
proof
  show "\<exists>d. detect_domain env p = Inr d \<and> d \<in> set DOMAINS"
  proof (cases "detect_domain_body env p")
    case (Inl e')
    then show ?thesis by (simp add: detect_domain_def DOMAINS_def)
  next
    case (Inr d)
    then obtain t where "classify_reply t = Inr d"
      by (auto simp: detect_domain_body_def split: sum.splits)
    with classify_reply_domain [of t] have "d \<in> set DOMAINS" by auto
    with Inr show ?thesis by (simp add: detect_domain_def)
  qed
next
  show "detect_domain_body env p = Inl e \<longrightarrow> detect_domain env p = Inr ''undersea''"
    by (simp add: detect_domain_def)
qed

theorem detect_domain_never_raises_witness:
  "detect_domain_body (reply_env (Inl APIError)) ''temp/temp_1.jpg'' = Inl APIError \<and>
   detect_domain (reply_env (Inl APIError)) ''temp/temp_1.jpg'' = Inr ''undersea'' \<and>
   detect_domain_body (reply_env (Inr [OtherBlock])) ''temp/temp_1.jpg'' = Inl AttributeError \<and>
   detect_domain (reply_env (Inr [OtherBlock])) ''temp/temp_1.jpg'' = Inr ''undersea'' \<and>
   detect_domain_body (reply_env (Inr [])) ''temp/temp_1.jpg'' = Inl IndexError \<and>
   detect_domain (reply_env (Inr [])) ''temp/temp_1.jpg'' = Inr ''undersea''"
proof -
  have b1: "detect_domain_body (reply_env (Inl APIError)) ''temp/temp_1.jpg'' = Inl APIError"
    by (simp add: detect_domain_body_def reply_env_def sample_env_def)
  have b2: "detect_domain_body (reply_env (Inr [OtherBlock])) ''temp/temp_1.jpg'' = Inl AttributeError"
    by (simp add: detect_domain_body_def reply_env_def sample_env_def index0_def block_text_def)
  have b3: "detect_domain_body (reply_env (Inr [])) ''temp/temp_1.jpg'' = Inl IndexError"
    by (simp add: detect_domain_body_def reply_env_def sample_env_def index0_def)
  show ?thesis
    using detect_domain_never_raises [of "reply_env (Inl APIError)" "''temp/temp_1.jpg''" APIError]
      detect_domain_never_raises [of "reply_env (Inr [OtherBlock])" "''temp/temp_1.jpg''" AttributeError]
      detect_domain_never_raises [of "reply_env (Inr [])" "''temp/temp_1.jpg''" IndexError]
      b1 b2 b3
    by simp
qed

text \<open>
  C8: when a statement of the \<open>try\<close> block of \<open>annotate_image\<close> raises, the function
  returns the path it was given; in every case it returns a path, the one it was given
  or the one of the file it has saved.
\<close>

theorem annotate_image_falls_back:
  "(fst (annotate_body env files image_path annotations) = Inl e \<longrightarrow>
      annotate_image env files image_path annotations = (Inr image_path, files)) \<and>
   (fst (annotate_image env files image_path annotations) = Inr image_path \<or>
    annotate_image env files image_path annotations
      = (Inr (annotated_name env), insert (annotated_name env) files))"
  by (auto simp: annotate_image_def annotate_body_def split: sum.splits)

theorem annotate_image_falls_back_witness:
  "fst (annotate_body (sample_env\<lparr>save_image := (\<lambda>i p. Inl OSError)\<rparr>) {''temp/temp_1.jpg''}
          ''temp/temp_1.jpg'' sample_annotations) = Inl OSError \<and>
   annotate_image (sample_env\<lparr>save_image := (\<lambda>i p. Inl OSError)\<rparr>) {''temp/temp_1.jpg''}
          ''temp/temp_1.jpg'' sample_annotations = (Inr ''temp/temp_1.jpg'', {''temp/temp_1.jpg''}) \<and>
   fst (annotate_body (sample_env\<lparr>open_image := (\<lambda>p. Inl ImageError)\<rparr>) {''temp/temp_1.jpg''}
          ''temp/temp_1.jpg'' sample_annotations) = Inl ImageError \<and>
   annotate_image (sample_env\<lparr>open_image := (\<lambda>p. Inl ImageError)\<rparr>) {''temp/temp_1.jpg''}
          ''temp/temp_1.jpg'' sample_annotations = (Inr ''temp/temp_1.jpg'', {''temp/temp_1.jpg''})"
proof -
  have b1: "fst (annotate_body (sample_env\<lparr>save_image := (\<lambda>i p. Inl OSError)\<rparr>) {''temp/temp_1.jpg''}
          ''temp/temp_1.jpg'' sample_annotations) = Inl OSError"
    by (simp add: annotate_body_def sample_env_def load_font_def sample_annotations_def)
  have b2: "fst (annotate_body (sample_env\<lparr>open_image := (\<lambda>p. Inl ImageError)\<rparr>) {''temp/temp_1.jpg''}
          ''temp/temp_1.jpg'' sample_annotations) = Inl ImageError"
    by (simp add: annotate_body_def sample_env_def)
  show ?thesis
    using annotate_image_falls_back [of "sample_env\<lparr>save_image := (\<lambda>i p. Inl OSError)\<rparr>"
        "{''temp/temp_1.jpg''}" "''temp/temp_1.jpg''" sample_annotations OSError]
      annotate_image_falls_back [of "sample_env\<lparr>open_image := (\<lambda>p. Inl ImageError)\<rparr>"
        "{''temp/temp_1.jpg''}" "''temp/temp_1.jpg''" sample_annotations ImageError]
      b1 b2
    by simp
qed

lemma page_break_images:
  "list_ex is_draw_image (fst (page_break (ops, y))) = list_ex is_draw_image ops"
  by (simp add: page_break_def)

lemma wrapped_loop_images:
  "list_ex is_draw_image (fst (wrapped_loop ls (ops, y))) = list_ex is_draw_image ops"
proof (induction ls arbitrary: ops y)
  case Nil
  then show ?case by simp
next
  case (Cons l ls)
  obtain ops' y' where pb: "page_break (ops, y) = (ops', y')" by (cases "page_break (ops, y)")
  with page_break_images [of ops y] have "list_ex is_draw_image ops' = list_ex is_draw_image ops"
    by simp
  with pb Cons.IH show ?case by simp
qed

lemma lines_loop_images:
  "list_ex is_draw_image (fst (lines_loop env ls (ops, y))) = list_ex is_draw_image ops"
proof (induction ls arbitrary: ops y)
  case Nil
  then show ?case by simp
next
  case (Cons l ls)
  obtain ops' y' where w: "wrapped_loop (wrap_fill env (strip l)) (ops, y) = (ops', y')"
    by (cases "wrapped_loop (wrap_fill env (strip l)) (ops, y)")
  with wrapped_loop_images [of "wrap_fill env (strip l)" ops y]
  have "list_ex is_draw_image ops' = list_ex is_draw_image ops" by simp
  with w Cons.IH show ?case by simp
qed

lemma report_sections_loop_images:
  "list_ex is_draw_image (fst (report_sections_loop env secs (ops, y))) = list_ex is_draw_image ops"
proof (induction secs arbitrary: ops y)
  case Nil
  then show ?case by simp
next
  case (Cons sec secs)
  obtain title content where sec: "sec = (title, content)" by (cases sec)
  obtain ops1 y1 where pb: "page_break (ops, y) = (ops1, y1)" by (cases "page_break (ops, y)")
  with page_break_images [of ops y] have i1: "list_ex is_draw_image ops1 = list_ex is_draw_image ops"
    by simp
  let ?start = "ops1 @ [SetFont ''Helvetica-Bold'' 12,
                        DrawString 100 y1 (title_case env (replace_char CHR ''_'' CHR '' '' title)),
                        SetFont ''Helvetica'' 10]"
  obtain ops2 y2 where ll: "lines_loop env (split_str [newline] content) (?start, y1 - 20) = (ops2, y2)"
    by (cases "lines_loop env (split_str [newline] content) (?start, y1 - 20)")
  with lines_loop_images [of env "split_str [newline] content" ?start "y1 - 20"] i1
  have "list_ex is_draw_image ops2 = list_ex is_draw_image ops" by simp
  with sec pb ll Cons.IH [of ops2 "y2 - 20"] show ?case by simp
qed

lemma draw_images_drawn:
  assumes "draw_images env files image_path (Some q) cv = Inr cv'"
    and "image_path \<in> files" and "q \<in> files"
  shows "list_ex is_draw_image (fst cv')"
  using assms by (cases cv) (auto simp: draw_images_def split: sum.splits)

lemma report_ops_no_image:
  assumes "report_ops env files secs domain image_path ap = Inr ops"
    and "\<not> list_ex is_draw_image ops"
  shows "image_path \<notin> files \<or> (\<exists>q. ap = Some q \<and> q \<notin> files)"
proof (rule ccontr)
  assume neg: "\<not> (image_path \<notin> files \<or> (\<exists>q. ap = Some q \<and> q \<notin> files))"
  then have ip: "image_path \<in> files" by simp
  from assms(1) obtain cv cv' where
    di: "draw_images env files image_path ap cv = Inr cv'"
    and ops: "ops = fst (report_sections_loop env secs cv')"
    by (auto simp: report_ops_def split: sum.splits)
  from di ip obtain q where ap: "ap = Some q"
    by (cases ap; cases cv) (auto simp: draw_images_def)
  with neg have q: "q \<in> files" by simp
  from di ap ip q have "list_ex is_draw_image (fst cv')" by (auto dest: draw_images_drawn)
  with report_sections_loop_images [of env secs "fst cv'" "snd cv'"] ops
  have "list_ex is_draw_image ops" by simp
  with assms(2) show False by simp
qed

lemma report_ops_missing_image:
  assumes "image_path \<notin> files"
  shows "\<exists>ops. report_ops env files secs domain image_path ap = Inr ops \<and> \<not> list_ex is_draw_image ops"
  using assms by (simp add: report_ops_def draw_images_def report_sections_loop_images)

text \<open>
  C10, as stated, fails: with \<open>annotated_path = None\<close> and an original image that is
  not on disk, the existence check is never applied to \<open>None\<close>, nothing is raised and
  the report is written without images.
\<close>

theorem none_path_missing_image_counterexample:
  "generate_pdf_report sample_env {} sample_response sample_sections ''undersea''
     ''temp/temp_1.jpg'' sample_annotations None
   = (Inr ''report_undersea_20240101_120002.pdf'',
      {''reports/report_undersea_20240101_120002.pdf''})"
  by code_simp

text \<open>
  C10, amended: with \<open>annotated_path = None\<close>, the function raises TypeError when the
  original image is on disk, and when it is not, the second check is skipped, the
  report is drawn without images and the call succeeds or fails with \<open>c.save()\<close>.
  Whatever \<open>annotated_path\<close> is, a report is drawn without the images only when the
  original image is not on disk or \<open>annotated_path\<close> is a path that is not on disk.
\<close>

theorem report_none_annotated_path:
  "(image_path \<in> files \<longrightarrow>
      generate_pdf_report env files analysis_results secs domain image_path anns None
        = (Inl TypeError, files)) \<and>
   (image_path \<notin> files \<longrightarrow>
      (\<exists>ops. report_ops env files secs domain image_path None = Inr ops \<and>
             \<not> list_ex is_draw_image ops \<and>
             generate_pdf_report env files analysis_results secs domain image_path anns None
               = (case canvas_save env (''reports/'' @ report_name env domain) ops of
                    Inl e \<Rightarrow> (Inl e, files)
                  | Inr u \<Rightarrow> (Inr (report_name env domain),
                               insert (''reports/'' @ report_name env domain) files)))) \<and>
   (report_ops env files secs domain image_path ap = Inr ops' \<longrightarrow>
      \<not> list_ex is_draw_image ops' \<longrightarrow>
      image_path \<notin> files \<or> (\<exists>q. ap = Some q \<and> q \<notin> files))"
proof (intro conjI impI)
  assume "image_path \<in> files"
  then show "generate_pdf_report env files analysis_results secs domain image_path anns None
        = (Inl TypeError, files)"
    by (simp add: generate_pdf_report_def report_ops_def draw_images_def)
next
  assume "image_path \<notin> files"
  then obtain ops where ops: "report_ops env files secs domain image_path None = Inr ops"
    and ni: "\<not> list_ex is_draw_image ops"
    using report_ops_missing_image by blast
  from ops have "generate_pdf_report env files analysis_results secs domain image_path anns None
               = (case canvas_save env (''reports/'' @ report_name env domain) ops of
                    Inl e \<Rightarrow> (Inl e, files)
                  | Inr u \<Rightarrow> (Inr (report_name env domain),
                               insert (''reports/'' @ report_name env domain) files))"
    by (simp add: generate_pdf_report_def)
  with ops ni show "\<exists>ops. report_ops env files secs domain image_path None = Inr ops \<and>
             \<not> list_ex is_draw_image ops \<and>
             generate_pdf_report env files analysis_results secs domain image_path anns None
               = (case canvas_save env (''reports/'' @ report_name env domain) ops of
                    Inl e \<Rightarrow> (Inl e, files)
                  | Inr u \<Rightarrow> (Inr (report_name env domain),
                               insert (''reports/'' @ report_name env domain) files))"
    by blast
next
  assume "report_ops env files secs domain image_path ap = Inr ops'"
    and "\<not> list_ex is_draw_image ops'"
  then show "image_path \<notin> files \<or> (\<exists>q. ap = Some q \<and> q \<notin> files)"
    by (rule report_ops_no_image)
qed

lemma sample_report_ops:
  "report_ops sample_env {''temp/temp_1.jpg''} [] ''undersea'' ''temp/temp_1.jpg''
     (Some ''temp/annotated_gone.jpg'')
   = Inr [SetFont ''Helvetica-Bold'' 16,
          DrawString 100 750 ''Domain-Specific Image Analysis Report - undersea'',
          SetFont ''Helvetica'' 10,
          DrawString 100 720 ''Generated on: 2024-01-01 12:00:02'']"
  by code_simp

theorem report_none_annotated_path_witness:
  "generate_pdf_report sample_env {''temp/temp_1.jpg''} sample_response sample_sections ''undersea''
     ''temp/temp_1.jpg'' sample_annotations None = (Inl TypeError, {''temp/temp_1.jpg''}) \<and>
   (\<exists>ops. report_ops sample_env {} sample_sections ''undersea'' ''temp/temp_1.jpg'' None = Inr ops \<and>
          \<not> list_ex is_draw_image ops \<and>
          generate_pdf_report sample_env {} sample_response sample_sections ''undersea''
            ''temp/temp_1.jpg'' sample_annotations None
          = (Inr ''report_undersea_20240101_120002.pdf'',
             {''reports/report_undersea_20240101_120002.pdf''})) \<and>
   (\<exists>q. Some ''temp/annotated_gone.jpg'' = Some q \<and> q \<notin> {''temp/temp_1.jpg''})"
proof -
  have w1: "generate_pdf_report sample_env {''temp/temp_1.jpg''} sample_response sample_sections
     ''undersea'' ''temp/temp_1.jpg'' sample_annotations None = (Inl TypeError, {''temp/temp_1.jpg''})"
    using report_none_annotated_path [of "''temp/temp_1.jpg''" "{''temp/temp_1.jpg''}" sample_env
        sample_response sample_sections "''undersea''" sample_annotations]
    by simp
  have sv: "\<And>path ops. canvas_save sample_env path ops = Inr ()"
    by (simp add: sample_env_def)
  have nm: "report_name sample_env ''undersea'' = ''report_undersea_20240101_120002.pdf''"
    by (simp add: report_name_def sample_env_def)
  have w2: "\<exists>ops. report_ops sample_env {} sample_sections ''undersea'' ''temp/temp_1.jpg'' None = Inr ops \<and>
          \<not> list_ex is_draw_image ops \<and>
          generate_pdf_report sample_env {} sample_response sample_sections ''undersea''
            ''temp/temp_1.jpg'' sample_annotations None
          = (Inr ''report_undersea_20240101_120002.pdf'',
             {''reports/report_undersea_20240101_120002.pdf''})"
    using report_none_annotated_path [of "''temp/temp_1.jpg''" "{}" sample_env
        sample_response sample_sections "''undersea''" sample_annotations]
    by (simp add: sv nm)
  have w3: "\<exists>q. Some ''temp/annotated_gone.jpg'' = Some q \<and> q \<notin> {''temp/temp_1.jpg''}"
    using report_none_annotated_path [of "''temp/temp_1.jpg''" "{''temp/temp_1.jpg''}" sample_env
        sample_response "[]" "''undersea''" sample_annotations "Some ''temp/annotated_gone.jpg''"]
      sample_report_ops
    by simp
  from w1 w2 w3 show ?thesis by blast
qed





























end
